theory Spec2Isabelle
  imports Main "HOL-Library.Sublist"
begin

section \<open>The text patcher \<^verbatim>\<open>fix_response_hash.py\<close>\<close>

text \<open>
  The script walks a fixed list of three paths. For each path that exists it reads the
  file as text, replaces the literal \<^verbatim>\<open>response.hash\<close> by \<^verbatim>\<open>response.id\<close>
  with \<^verbatim>\<open>str.replace\<close>, writes the text back and prints a line; at the end it prints a
  completion line. The model below has one definition per construct of the script.

  A file holds the text that \<^verbatim>\<open>f.read()\<close> returns and \<^verbatim>\<open>f.write\<close> takes: one
  \<open>char\<close> of the model is one character of a Python \<^verbatim>\<open>str\<close>. Decoding, encoding and
  newline translation of text mode are not modelled.
\<close>

subsection \<open>The environment: files, standard output, and a log of file operations\<close>

type_synonym path = string

record text_file =
  contents :: string
  readable :: bool
  writable :: bool

text \<open>
  Every completed file-system operation is recorded, so that "the file was rewritten"
  and "the path was never touched" can be stated.
\<close>

datatype fs_event = Exists path | Read path | Write path string

fun event_path :: "fs_event \<Rightarrow> path" where
  "event_path (Exists p) = p"
| "event_path (Read p) = p"
| "event_path (Write p s) = p"

record world =
  files :: "path \<rightharpoonup> text_file"
  stdout :: "string list"
  fs_log :: "fs_event list"

datatype error = FileNotFoundError path | PermissionError path

subsection \<open>The library calls the script makes\<close>

text \<open>\<^verbatim>\<open>os.path.exists(p)\<close>\<close>

definition path_exists :: "path \<Rightarrow> world \<Rightarrow> bool \<times> world" where
  "path_exists p w = (files w p \<noteq> None, w\<lparr>fs_log := fs_log w @ [Exists p]\<rparr>)"

text \<open>\<^verbatim>\<open>with open(p, 'r') as f: content = f.read()\<close>\<close>

definition read_text :: "path \<Rightarrow> world \<Rightarrow> (error + string) \<times> world" where
  "read_text p w =
     (case files w p of
        None \<Rightarrow> (Inl (FileNotFoundError p), w)
      | Some f \<Rightarrow>
          if readable f then (Inr (contents f), w\<lparr>fs_log := fs_log w @ [Read p]\<rparr>)
          else (Inl (PermissionError p), w))"

text \<open>
  \<^verbatim>\<open>with open(p, 'w') as f: f.write(s)\<close>. Mode \<^verbatim>\<open>'w'\<close> creates a missing file and
  replaces the whole content of an existing one.
\<close>

definition write_text :: "path \<Rightarrow> string \<Rightarrow> world \<Rightarrow> (error + unit) \<times> world" where
  "write_text p s w =
     (case files w p of
        None \<Rightarrow>
          (Inr (), w\<lparr>files := (files w)(p \<mapsto> \<lparr>contents = s, readable = True, writable = True\<rparr>),
                      fs_log := fs_log w @ [Write p s]\<rparr>)
      | Some f \<Rightarrow>
          if writable f
          then (Inr (), w\<lparr>files := (files w)(p \<mapsto> f\<lparr>contents := s\<rparr>),
                           fs_log := fs_log w @ [Write p s]\<rparr>)
          else (Inl (PermissionError p), w))"

text \<open>\<^verbatim>\<open>print(s)\<close>\<close>

definition print_line :: "string \<Rightarrow> world \<Rightarrow> world" where
  "print_line s w = w\<lparr>stdout := stdout w @ [s]\<rparr>"

text \<open>
  \<^verbatim>\<open>s.replace(old, new)\<close>: the occurrences of \<open>old\<close> are found from left to right, each
  search starting where the previous occurrence ended. An empty \<open>old\<close> matches before
  every character and at the end.
\<close>

function str_replace :: "string \<Rightarrow> string \<Rightarrow> string \<Rightarrow> string" where
  "str_replace old new [] = (if old = [] then new else [])"
| "str_replace old new (c # cs) =
     (if old = [] then new @ c # str_replace old new cs
      else if prefix old (c # cs) then new @ str_replace old new (drop (length old) (c # cs))
      else c # str_replace old new cs)"
  by pat_completeness auto
termination
  by (relation "measure (\<lambda>(old, new, s). length s)") auto

subsection \<open>The script\<close>

definition services :: "path list" where
  "services =
     [''Blendv3/Services/PoolService.swift'',
      ''Blendv3/Services/BackstopContractService.swift'',
      ''Blendv3/Services/BlendOracleService.swift'']"

text \<open>The body of the \<^verbatim>\<open>for\<close> loop; \<open>Some e\<close> is an exception that leaves the body.\<close>

definition patch_file :: "path \<Rightarrow> world \<Rightarrow> error option \<times> world" where
  "patch_file service_file w =
     (case path_exists service_file w of
        (False, w0) \<Rightarrow> (None, w0)
      | (True, w0) \<Rightarrow>
          (case read_text service_file w0 of
             (Inl e, w1) \<Rightarrow> (Some e, w1)
           | (Inr content, w1) \<Rightarrow>
               (case write_text service_file
                       (str_replace ''response.hash'' ''response.id'' content) w1 of
                  (Inl e, w2) \<Rightarrow> (Some e, w2)
                | (Inr _, w2) \<Rightarrow> (None, print_line (''Updated '' @ service_file) w2))))"

text \<open>The \<^verbatim>\<open>for\<close> loop: an exception ends it at once.\<close>

fun for_services :: "path list \<Rightarrow> world \<Rightarrow> error option \<times> world" where
  "for_services [] w = (None, w)"
| "for_services (p # ps) w =
     (case patch_file p w of
        (Some e, w') \<Rightarrow> (Some e, w')
      | (None, w') \<Rightarrow> for_services ps w')"

text \<open>
  The whole script. The result is the unhandled exception, if any, and the world the
  run leaves behind.
\<close>

definition main :: "world \<Rightarrow> error option \<times> world" where
  "main w =
     (case for_services services w of
        (Some e, w') \<Rightarrow> (Some e, w')
      | (None, w') \<Rightarrow> (None, print_line ''All services updated!'' w'))"

subsection \<open>Vocabulary for the properties\<close>


text \<open>
  \<^verbatim>\<open>s.count(old)\<close>: the number of non-overlapping occurrences of \<open>old\<close>, counted
  from left to right.
\<close>

function count_str :: "string \<Rightarrow> string \<Rightarrow> nat" where
  "count_str old [] = (if old = [] then 1 else 0)"
| "count_str old (c # cs) =
     (if old = [] then 1 + count_str old cs
      else if prefix old (c # cs) then 1 + count_str old (drop (length old) (c # cs))
      else count_str old cs)"
  by pat_completeness auto
termination
  by (relation "measure (\<lambda>(old, s). length s)") auto

text \<open>A file after the replacement; its permissions are as before.\<close>

definition patched :: "text_file \<Rightarrow> text_file" where
  "patched f = f\<lparr>contents := str_replace ''response.hash'' ''response.id'' (contents f)\<rparr>"

text \<open>
  No operation of the script on \<open>p\<close> can fail: the path is missing (and skipped), or the
  file may be read and written. \<open>io_ok\<close> says so of every listed path.
\<close>

definition accessible :: "world \<Rightarrow> path \<Rightarrow> bool" where
  "accessible w p = (case files w p of None \<Rightarrow> True | Some f \<Rightarrow> readable f \<and> writable f)"

definition io_ok :: "world \<Rightarrow> bool" where
  "io_ok w = (\<forall>p\<in>set services. accessible w p)"

text \<open>The file operations of one loop iteration that meets no error.\<close>

definition events_of :: "world \<Rightarrow> path \<Rightarrow> fs_event list" where
  "events_of w p =
     (case files w p of
        None \<Rightarrow> [Exists p]
      | Some f \<Rightarrow> [Exists p, Read p, Write p (contents (patched f))])"

text \<open>
  A step from \<open>w\<close> to \<open>w'\<close> that creates and deletes nothing, leaves every file outside
  \<open>S\<close> as it was, operates on paths in \<open>S\<close> only, and prints nothing but
  confirmation lines for existing paths in \<open>S\<close>.
\<close>

definition touches_only :: "path set \<Rightarrow> world \<Rightarrow> world \<Rightarrow> bool" where
  "touches_only S w w' \<longleftrightarrow>
     dom (files w') = dom (files w) \<and> (\<forall>q. q \<notin> S \<longrightarrow> files w' q = files w q) \<and>
     (\<exists>evs. fs_log w' = fs_log w @ evs \<and> event_path ` set evs \<subseteq> S) \<and>
     (\<exists>ls. stdout w' = stdout w @ ls \<and>
        set ls \<subseteq> (\<lambda>q. ''Updated '' @ q) ` {q \<in> S. files w q \<noteq> None})"

text \<open>
  Sample worlds. In \<open>sample_world\<close> the first two listed files exist, the third is
  missing, and there is a file outside the list. \<open>other_world\<close> has the same paths with
  different contents. In \<open>locked_world\<close> all three listed files exist and the second is
  read-only.
\<close>

definition rw_file :: "string \<Rightarrow> text_file" where
  "rw_file s = \<lparr>contents = s, readable = True, writable = True\<rparr>"

definition sample_world :: world where
  "sample_world =
     \<lparr>files = [''Blendv3/Services/PoolService.swift'' \<mapsto> rw_file ''a=response.hash;'',
               ''Blendv3/Services/BackstopContractService.swift'' \<mapsto> rw_file ''b'',
               ''README.md'' \<mapsto> rw_file ''see response.hash''],
      stdout = [], fs_log = []\<rparr>"


definition locked_world :: world where
  "locked_world =
     \<lparr>files = [''Blendv3/Services/PoolService.swift'' \<mapsto> rw_file ''a=response.hash;'',
               ''Blendv3/Services/BackstopContractService.swift'' \<mapsto>
                  \<lparr>contents = ''response.hash'', readable = True, writable = False\<rparr>,
               ''Blendv3/Services/BlendOracleService.swift'' \<mapsto>
                  rw_file ''response.hash response.hash''],
      stdout = [], fs_log = []\<rparr>"

section \<open>Properties of the replacement\<close>

text \<open>
  The lemmas are stated for any pair of literals; what they need of \<^verbatim>\<open>response.hash\<close>
  and \<^verbatim>\<open>response.id\<close> is explicit: the first character of the old literal occurs
  nowhere else in it nor later in the new one, both start with the same character, and
  neither is a prefix of the other.
\<close>

lemma not_prefix_hd: "old \<noteq> [] \<Longrightarrow> c \<noteq> hd old \<Longrightarrow> \<not> prefix old (c # cs)"
  by (cases old) auto

lemma str_replace_skip:
  "old \<noteq> [] \<Longrightarrow> hd old \<notin> set u \<Longrightarrow> str_replace old new (u @ t) = u @ str_replace old new t"
  by (induction u) (auto simp: not_prefix_hd)

lemma str_replace_match:
  "old \<noteq> [] \<Longrightarrow> str_replace old new (old @ t) = new @ str_replace old new t"
  by (cases old) auto

lemma str_replace_new:
  assumes "old \<noteq> []" "hd old \<notin> set (tl new)" "\<not> prefix old new" "\<not> prefix new old"
  shows "str_replace old new (new @ t) = new @ str_replace old new t"
proof (cases new)
  case Nil
  then show ?thesis by simp
next
  case (Cons n ns)
  have "\<not> prefix old (new @ t)"
    using assms(3,4) prefix_same_cases [of old "new @ t" new] by auto
  then have "str_replace old new (new @ t) = n # str_replace old new (ns @ t)"
    using Cons assms(1) by simp
  also have "\<dots> = n # ns @ str_replace old new t"
    using assms(1,2) Cons by (simp add: str_replace_skip)
  finally show ?thesis using Cons by simp
qed

lemma prefix_replace_back:
  "old \<noteq> [] \<Longrightarrow> new \<noteq> [] \<Longrightarrow> hd new = hd old \<Longrightarrow> hd old \<notin> set t \<Longrightarrow>
   prefix t (str_replace old new s) \<Longrightarrow> prefix t s"
proof (induction old new s arbitrary: t rule: str_replace.induct)
  case (1 old new)
  then show ?case by simp
next
  case (2 old new c cs)
  show ?case
  proof (cases "prefix old (c # cs)")
    case True
    with "2.prems" show ?thesis
      by (cases t; cases new) auto
  next
    case False
    with "2.prems" "2.IH"(3) show ?thesis
      by (cases t) auto
  qed
qed

lemma no_new_match:
  assumes "old \<noteq> []" "new \<noteq> []" "hd new = hd old" "hd old \<notin> set (tl old)"
    and "\<not> prefix old (c # cs)"
  shows "\<not> prefix old (c # str_replace old new cs)"
proof
  assume p: "prefix old (c # str_replace old new cs)"
  from assms(1) obtain x xs where old: "old = x # xs" by (cases old) auto
  with p have "c = x" and "prefix xs (str_replace old new cs)" by auto
  moreover have "hd old \<notin> set xs" using assms(4) old by simp
  ultimately have "prefix xs cs"
    using prefix_replace_back [OF assms(1-3)] by blast
  with \<open>c = x\<close> old assms(5) show False by simp
qed

lemma str_replace_idem:
  assumes "old \<noteq> []" "new \<noteq> []" "hd new = hd old" "hd old \<notin> set (tl old)"
    "hd old \<notin> set (tl new)" "\<not> prefix old new" "\<not> prefix new old"
  shows "str_replace old new (str_replace old new s) = str_replace old new s"
  using assms
proof (induction old new s rule: str_replace.induct)
  case (1 old new)
  then show ?case by simp
next
  case (2 old new c cs)
  show ?case
  proof (cases "prefix old (c # cs)")
    case True
    with "2.prems" "2.IH"(2) show ?thesis
      by (simp add: str_replace_new)
  next
    case False
    with "2.prems" "2.IH"(3) no_new_match [OF "2.prems"(1-4) False] show ?thesis by simp
  qed
qed




lemma str_replace_length:
  "old \<noteq> [] \<Longrightarrow>
   length (str_replace old new s) + count_str old s * length old =
   length s + count_str old s * length new"
proof (induction old new s rule: str_replace.induct)
  case (1 old new)
  then show ?case by simp
next
  case (2 old new c cs)
  show ?case
  proof (cases "prefix old (c # cs)")
    case True
    then have "length old \<le> length (c # cs)" by (rule prefix_length_le)
    with True "2.prems" "2.IH"(2) show ?thesis by (simp add: algebra_simps)
  next
    case False
    with "2.prems" "2.IH"(3) show ?thesis by simp
  qed
qed


lemma count_str_pos:
  "old \<noteq> [] \<Longrightarrow> sublist old s \<Longrightarrow> 0 < count_str old s"
  by (induction s) (auto simp: sublist_Cons_right)

lemma prefix_unbordered:
  assumes "old \<noteq> []" "hd old \<notin> set (tl old)" "prefix old (x @ old @ b)"
  shows "x = [] \<or> prefix old x"
proof (rule ccontr)
  assume n: "\<not> (x = [] \<or> prefix old x)"
  have "prefix x (x @ old @ b)" by simp
  with assms(3) n have "prefix x old" using prefix_same_cases by blast
  then obtain t where t: "old = x @ t" by (auto simp: prefix_def)
  with n have "t \<noteq> []" by auto
  from assms(3) t have "prefix t (old @ b)" by (metis same_prefix_prefix)
  with \<open>t \<noteq> []\<close> assms(1) have "hd t = hd old"
    by (cases t; cases old) auto
  moreover from n t have "set t \<subseteq> set (tl old)" by (cases x) auto
  ultimately show False using assms(2) \<open>t \<noteq> []\<close> by (metis hd_in_set subsetD)
qed

lemma str_replace_around:
  assumes "old \<noteq> []" "hd old \<notin> set (tl old)"
  shows "str_replace old new (a @ old @ b) = str_replace old new a @ new @ str_replace old new b"
  using assms
proof (induction old new a rule: str_replace.induct)
  case (1 old new)
  then show ?case by (simp add: str_replace_match)
next
  case (2 old new c cs)
  show ?case
  proof (cases "prefix old (c # cs)")
    case True
    then have le: "length old \<le> length (c # cs)" by (rule prefix_length_le)
    from True have p: "prefix old ((c # cs) @ old @ b)" by (rule prefix_prefix)
    have d: "drop (length old) ((c # cs) @ old @ b) = drop (length old) (c # cs) @ old @ b"
      unfolding drop_append using le by simp
    have "str_replace old new ((c # cs) @ old @ b) =
            new @ str_replace old new (drop (length old) ((c # cs) @ old @ b))"
      using p "2.prems"(1) by simp
    then have "str_replace old new ((c # cs) @ old @ b) =
            new @ str_replace old new (drop (length old) (c # cs) @ old @ b)"
      by (simp only: d)
    with True "2.prems" "2.IH"(2) show ?thesis by simp
  next
    case False
    then have "\<not> prefix old ((c # cs) @ old @ b)"
      using prefix_unbordered [OF "2.prems", of "c # cs" b] by blast
    with False "2.prems" "2.IH"(3) show ?thesis by simp
  qed
qed

section \<open>Properties of a run\<close>

subsection \<open>One iteration of the loop, case by case\<close>

lemma patch_file_missing:
  "files w p = None \<Longrightarrow> patch_file p w = (None, w\<lparr>fs_log := fs_log w @ [Exists p]\<rparr>)"
  by (simp add: patch_file_def path_exists_def)

lemma patch_file_ok:
  "files w p = Some f \<Longrightarrow> readable f \<Longrightarrow> writable f \<Longrightarrow>
   patch_file p w =
     (None, w\<lparr>files := (files w)(p \<mapsto> patched f),
              stdout := stdout w @ [''Updated '' @ p],
              fs_log := fs_log w @ [Exists p, Read p, Write p (contents (patched f))]\<rparr>)"
  by (simp add: patch_file_def path_exists_def read_text_def write_text_def print_line_def
      patched_def)

lemma patch_file_unreadable:
  "files w p = Some f \<Longrightarrow> \<not> readable f \<Longrightarrow>
   patch_file p w = (Some (PermissionError p), w\<lparr>fs_log := fs_log w @ [Exists p]\<rparr>)"
  by (simp add: patch_file_def path_exists_def read_text_def)

lemma patch_file_unwritable:
  "files w p = Some f \<Longrightarrow> readable f \<Longrightarrow> \<not> writable f \<Longrightarrow>
   patch_file p w = (Some (PermissionError p), w\<lparr>fs_log := fs_log w @ [Exists p, Read p]\<rparr>)"
  by (simp add: patch_file_def path_exists_def read_text_def write_text_def)

lemma patch_file_accessible:
  assumes "accessible w p"
  shows "patch_file p w =
     (None, w\<lparr>files := (\<lambda>q. if q = p then map_option patched (files w q) else files w q),
              stdout := stdout w @ map (\<lambda>q. ''Updated '' @ q) (filter (\<lambda>q. files w q \<noteq> None) [p]),
              fs_log := fs_log w @ events_of w p\<rparr>)"
proof (cases "files w p")
  case None
  then have "(\<lambda>q. if q = p then map_option patched (files w q) else files w q) = files w"
    by auto
  with None show ?thesis by (simp add: patch_file_missing events_of_def)
next
  case (Some f)
  then have "(\<lambda>q. if q = p then map_option patched (files w q) else files w q) =
      (files w)(p \<mapsto> patched f)"
    by auto
  with Some assms show ?thesis
    by (simp add: patch_file_ok events_of_def accessible_def)
qed

lemma for_services_ok:
  "distinct ps \<Longrightarrow> \<forall>p\<in>set ps. accessible w p \<Longrightarrow>
   for_services ps w =
     (None, w\<lparr>files := (\<lambda>q. if q \<in> set ps then map_option patched (files w q) else files w q),
              stdout := stdout w @ map (\<lambda>q. ''Updated '' @ q) (filter (\<lambda>q. files w q \<noteq> None) ps),
              fs_log := fs_log w @ concat (map (events_of w) ps)\<rparr>)"
proof (induction ps arbitrary: w)
  case Nil
  then show ?case by simp
next
  case (Cons p ps)
  let ?w1 = "w\<lparr>files := (\<lambda>q. if q = p then map_option patched (files w q) else files w q),
              stdout := stdout w @ map (\<lambda>q. ''Updated '' @ q) (filter (\<lambda>q. files w q \<noteq> None) [p]),
              fs_log := fs_log w @ events_of w p\<rparr>"
  from Cons.prems have p: "patch_file p w = (None, ?w1)"
    by (simp add: patch_file_accessible)
  have same: "\<And>q. q \<in> set ps \<Longrightarrow> files ?w1 q = files w q"
    using Cons.prems(1) by auto
  then have acc: "\<forall>q\<in>set ps. accessible ?w1 q"
    using Cons.prems(2) by (simp add: accessible_def)
  have ev: "map (events_of ?w1) ps = map (events_of w) ps"
    using same by (simp add: events_of_def)
  have fl: "filter (\<lambda>q. files ?w1 q \<noteq> None) ps = filter (\<lambda>q. files w q \<noteq> None) ps"
    using same by (simp cong: filter_cong)
  have fs: "(\<lambda>q. if q \<in> set ps then map_option patched (files ?w1 q) else files ?w1 q) =
     (\<lambda>q. if q \<in> set (p # ps) then map_option patched (files w q) else files w q)"
    using Cons.prems(1) by auto
  from Cons.prems(1) have "distinct ps" by simp
  from Cons.IH [OF this acc] have
    "for_services ps ?w1 =
     (None, ?w1\<lparr>files := (\<lambda>q. if q \<in> set (p # ps) then map_option patched (files w q) else files w q),
              stdout := stdout ?w1 @ map (\<lambda>q. ''Updated '' @ q) (filter (\<lambda>q. files w q \<noteq> None) ps),
              fs_log := fs_log ?w1 @ concat (map (events_of w) ps)\<rparr>)"
    by (simp only: ev fl fs)
  with p show ?case by simp
qed

lemma distinct_services: "distinct services"
  by (simp add: services_def)

lemma main_ok:
  assumes "io_ok w"
  shows "main w =
     (None, w\<lparr>files := (\<lambda>q. if q \<in> set services then map_option patched (files w q) else files w q),
              stdout := stdout w @ map (\<lambda>q. ''Updated '' @ q) (filter (\<lambda>q. files w q \<noteq> None) services)
                 @ [''All services updated!''],
              fs_log := fs_log w @ concat (map (events_of w) services)\<rparr>)"
  using assms for_services_ok [OF distinct_services, of w]
  by (simp add: main_def io_ok_def print_line_def)

subsection \<open>What any run leaves untouched\<close>

lemma touches_only_refl: "touches_only S w w"
  by (simp add: touches_only_def)

lemma touches_only_trans:
  assumes "touches_only S w w1" "touches_only T w1 w2"
  shows "touches_only (S \<union> T) w w2"
proof -
  define g where "g = (\<lambda>q::path. ''Updated '' @ q)"
  have td: "\<And>S w w'. touches_only S w w' \<longleftrightarrow>
     dom (files w') = dom (files w) \<and> (\<forall>q. q \<notin> S \<longrightarrow> files w' q = files w q) \<and>
     (\<exists>evs. fs_log w' = fs_log w @ evs \<and> event_path ` set evs \<subseteq> S) \<and>
     (\<exists>ls. stdout w' = stdout w @ ls \<and> set ls \<subseteq> g ` {q \<in> S. files w q \<noteq> None})"
    unfolding touches_only_def g_def by (rule refl)
  from assms(1) obtain evs1 ls1 where 1:
    "dom (files w1) = dom (files w)" "\<forall>q. q \<notin> S \<longrightarrow> files w1 q = files w q"
    "fs_log w1 = fs_log w @ evs1" "event_path ` set evs1 \<subseteq> S"
    "stdout w1 = stdout w @ ls1" "set ls1 \<subseteq> g ` {q \<in> S. files w q \<noteq> None}"
    unfolding td by (elim conjE exE)
  from assms(2) obtain evs2 ls2 where 2:
    "dom (files w2) = dom (files w1)" "\<forall>q. q \<notin> T \<longrightarrow> files w2 q = files w1 q"
    "fs_log w2 = fs_log w1 @ evs2" "event_path ` set evs2 \<subseteq> T"
    "stdout w2 = stdout w1 @ ls2" "set ls2 \<subseteq> g ` {q \<in> T. files w1 q \<noteq> None}"
    unfolding td by (elim conjE exE)
  have ex: "\<And>q. (files w1 q \<noteq> None) = (files w q \<noteq> None)"
    using 1(1) by (auto simp: dom_def)
  have a: "dom (files w2) = dom (files w)" using 1(1) 2(1) by simp
  have b: "\<forall>q. q \<notin> S \<union> T \<longrightarrow> files w2 q = files w q" using 1(2) 2(2) by simp
  have c1: "fs_log w2 = fs_log w @ (evs1 @ evs2)" using 1(3) 2(3) by simp
  have c2: "event_path ` set (evs1 @ evs2) \<subseteq> S \<union> T" using 1(4) 2(4) by auto
  have d1: "stdout w2 = stdout w @ (ls1 @ ls2)" using 1(5) 2(5) by simp
  have "set ls2 \<subseteq> g ` {q \<in> T. files w q \<noteq> None}"
    using 2(6) by (simp only: ex)
  with 1(6) have d2: "set (ls1 @ ls2) \<subseteq> g ` {q \<in> S \<union> T. files w q \<noteq> None}"
    by auto
  from c1 c2 have c: "\<exists>evs. fs_log w2 = fs_log w @ evs \<and> event_path ` set evs \<subseteq> S \<union> T"
    by blast
  from d1 d2 have d: "\<exists>ls. stdout w2 = stdout w @ ls \<and>
      set ls \<subseteq> g ` {q \<in> S \<union> T. files w q \<noteq> None}"
    by blast
  show ?thesis unfolding td by (intro conjI a b c d)
qed

lemma patch_file_frame:
  assumes "patch_file p w = (e, w')"
  shows "touches_only {p} w w'"
proof (cases "files w p")
  case None
  with assms have "w' = w\<lparr>fs_log := fs_log w @ [Exists p]\<rparr>"
    by (simp add: patch_file_missing)
  then show ?thesis by (simp add: touches_only_def)
next
  case (Some f)
  then have dom: "insert p (dom (files w)) = dom (files w)" by auto
  show ?thesis
  proof (cases "readable f")
    case False
    with Some assms have "w' = w\<lparr>fs_log := fs_log w @ [Exists p]\<rparr>"
      by (simp add: patch_file_unreadable)
    then show ?thesis by (simp add: touches_only_def)
  next
    case r: True
    show ?thesis
    proof (cases "writable f")
      case False
      with r Some assms have "w' = w\<lparr>fs_log := fs_log w @ [Exists p, Read p]\<rparr>"
        by (simp add: patch_file_unwritable)
      then show ?thesis by (simp add: touches_only_def)
    next
      case True
      with r Some assms have "w' = w\<lparr>files := (files w)(p \<mapsto> patched f),
              stdout := stdout w @ [''Updated '' @ p],
              fs_log := fs_log w @ [Exists p, Read p, Write p (contents (patched f))]\<rparr>"
        by (simp add: patch_file_ok)
      then show ?thesis using Some dom by (simp add: touches_only_def)
    qed
  qed
qed

lemma for_services_frame:
  "for_services ps w = (e, w') \<Longrightarrow> touches_only (set ps) w w'"
proof (induction ps arbitrary: w)
  case Nil
  then show ?case by (simp add: touches_only_refl)
next
  case (Cons p ps)
  obtain e1 w1 where p: "patch_file p w = (e1, w1)" by (cases "patch_file p w")
  have 1: "touches_only {p} w w1" using p by (rule patch_file_frame)
  have "touches_only ({p} \<union> set ps) w w'"
  proof (cases e1)
    case (Some err)
    with p Cons.prems have "w' = w1" by simp
    with 1 touches_only_refl [of "set ps" w1] show ?thesis
      by (blast intro: touches_only_trans)
  next
    case None
    with p Cons.prems have "for_services ps w1 = (e, w')" by simp
    from 1 Cons.IH [OF this] show ?thesis by (rule touches_only_trans)
  qed
  then show ?case by simp
qed

lemma for_services_append:
  "for_services (xs @ ys) w =
     (case for_services xs w of (Some e, w') \<Rightarrow> (Some e, w') | (None, w') \<Rightarrow> for_services ys w')"
  by (induction xs arbitrary: w) (auto split: prod.splits option.splits)

lemma for_services_abort:
  assumes "distinct pre" "p \<notin> set pre" "\<forall>q\<in>set pre. accessible w q"
    and "files w p = Some f" "\<not> readable f \<or> \<not> writable f"
  shows "for_services (pre @ p # post) w =
     (Some (PermissionError p),
      w\<lparr>files := (\<lambda>q. if q \<in> set pre then map_option patched (files w q) else files w q),
        stdout := stdout w @ map (\<lambda>q. ''Updated '' @ q) (filter (\<lambda>q. files w q \<noteq> None) pre),
        fs_log := fs_log w @ concat (map (events_of w) pre) @
                  (if readable f then [Exists p, Read p] else [Exists p])\<rparr>)"
proof -
  let ?w1 = "w\<lparr>files := (\<lambda>q. if q \<in> set pre then map_option patched (files w q) else files w q),
        stdout := stdout w @ map (\<lambda>q. ''Updated '' @ q) (filter (\<lambda>q. files w q \<noteq> None) pre),
        fs_log := fs_log w @ concat (map (events_of w) pre)\<rparr>"
  have pre: "for_services pre w = (None, ?w1)"
    using assms(1,3) by (rule for_services_ok)
  have fp: "files ?w1 p = Some f" using assms(2,4) by simp
  have "patch_file p ?w1 =
     (Some (PermissionError p),
      ?w1\<lparr>fs_log := fs_log ?w1 @ (if readable f then [Exists p, Read p] else [Exists p])\<rparr>)"
  proof (cases "readable f")
    case True
    with assms(5) have "\<not> writable f" by simp
    with True show ?thesis using patch_file_unwritable [OF fp] by simp
  next
    case False
    then show ?thesis using patch_file_unreadable [OF fp] by simp
  qed
  with pre show ?thesis by (simp add: for_services_append)
qed

subsection \<open>The two literals of the script\<close>

lemma replace_twice:
  "str_replace ''response.hash'' ''response.id'' (str_replace ''response.hash'' ''response.id'' s)
     = str_replace ''response.hash'' ''response.id'' s"
  by (rule str_replace_idem) simp_all

lemma replace_length:
  "length (str_replace ''response.hash'' ''response.id'' s) + 2 * count_str ''response.hash'' s =
   length s"
  using str_replace_length [of "''response.hash''" "''response.id''" s] by simp

lemma none_left: "\<not> sublist ''response.hash'' (str_replace ''response.hash'' ''response.id'' s)"
proof
  let ?t = "str_replace ''response.hash'' ''response.id'' s"
  assume "sublist ''response.hash'' ?t"
  then have "0 < count_str ''response.hash'' ?t" by (simp add: count_str_pos)
  moreover have "length (str_replace ''response.hash'' ''response.id'' ?t) +
      2 * count_str ''response.hash'' ?t = length ?t"
    by (rule replace_length)
  ultimately show False by (simp add: replace_twice)
qed

lemma patched_idem: "patched (patched f) = patched f"
  by (simp add: patched_def replace_twice)

lemma main_abort:
  assumes "services = pre @ p # post" "\<forall>q\<in>set pre. accessible w q"
    and "files w p = Some f" "\<not> readable f \<or> \<not> writable f"
  shows "main w =
     (Some (PermissionError p),
      w\<lparr>files := (\<lambda>q. if q \<in> set pre then map_option patched (files w q) else files w q),
        stdout := stdout w @ map (\<lambda>q. ''Updated '' @ q) (filter (\<lambda>q. files w q \<noteq> None) pre),
        fs_log := fs_log w @ concat (map (events_of w) pre) @
                  (if readable f then [Exists p, Read p] else [Exists p])\<rparr>)"
proof -
  have "distinct (pre @ p # post)" using distinct_services by (simp only: assms(1))
  then have "distinct pre" "p \<notin> set pre" by simp_all
  from for_services_abort [OF this assms(2-4), of post] show ?thesis
    unfolding main_def assms(1) by simp
qed

lemma first_failure:
  assumes "\<not> io_ok w"
  shows "\<exists>pre p post f. services = pre @ p # post \<and> (\<forall>q\<in>set pre. accessible w q) \<and>
     files w p = Some f \<and> (\<not> readable f \<or> \<not> writable f)"
proof -
  from assms have "\<exists>q\<in>set services. \<not> accessible w q" by (simp add: io_ok_def)
  then obtain pre p post where s: "services = pre @ p # post" "\<not> accessible w p"
    "\<forall>q\<in>set pre. \<not> \<not> accessible w q"
    using split_list_first_prop [of services "\<lambda>q. \<not> accessible w q"] by blast
  from s(2) obtain f where "files w p = Some f" "\<not> readable f \<or> \<not> writable f"
    by (auto simp: accessible_def split: option.splits)
  with s show ?thesis by blast
qed

lemma main_twice_files: "files (snd (main (snd (main w)))) = files (snd (main w))"
proof (cases "io_ok w")
  case True
  let ?w1 = "snd (main w)"
  have f1: "files ?w1 = (\<lambda>q. if q \<in> set services then map_option patched (files w q) else files w q)"
    using main_ok [OF True] by simp
  have "io_ok ?w1"
    using True unfolding io_ok_def accessible_def f1
    by (auto simp: patched_def split: option.splits)
  from main_ok [OF this] have
    "files (snd (main ?w1)) = (\<lambda>q. if q \<in> set services then map_option patched (files ?w1 q) else files ?w1 q)"
    by simp
  also have "\<dots> = files ?w1"
    unfolding f1 by (auto simp: patched_idem option.map_comp comp_def)
  finally show ?thesis .
next
  case False
  from first_failure [OF this] obtain pre p post f where s: "services = pre @ p # post"
    "\<forall>q\<in>set pre. accessible w q" "files w p = Some f" "\<not> readable f \<or> \<not> writable f"
    by blast
  let ?w1 = "snd (main w)"
  have f1: "files ?w1 = (\<lambda>q. if q \<in> set pre then map_option patched (files w q) else files w q)"
    using main_abort [OF s] by simp
  have "distinct (pre @ p # post)" using distinct_services by (simp only: s(1))
  then have "p \<notin> set pre" by simp
  then have p1: "files ?w1 p = Some f" using s(3) f1 by simp
  have a1: "\<forall>q\<in>set pre. accessible ?w1 q"
    using s(2) unfolding accessible_def f1 by (auto simp: patched_def split: option.splits)
  from main_abort [OF s(1) a1 p1 s(4)] have
    "files (snd (main ?w1)) = (\<lambda>q. if q \<in> set pre then map_option patched (files ?w1 q) else files ?w1 q)"
    by simp
  also have "\<dots> = files ?w1"
    unfolding f1 by (auto simp: patched_idem option.map_comp comp_def)
  finally show ?thesis .
qed

subsection \<open>The whole script\<close>

lemma main_frame:
  assumes "main w = (e, w')"
  shows "dom (files w') = dom (files w) \<and> (\<forall>q. q \<notin> set services \<longrightarrow> files w' q = files w q) \<and>
   (\<exists>evs. fs_log w' = fs_log w @ evs \<and> event_path ` set evs \<subseteq> set services) \<and>
   (\<exists>ls. stdout w' = stdout w @ ls \<and>
      set ls \<subseteq> insert ''All services updated!''
        ((\<lambda>q. ''Updated '' @ q) ` {q \<in> set services. files w q \<noteq> None}))"
proof -
  obtain e1 w1 where f: "for_services services w = (e1, w1)"
    by (cases "for_services services w")
  from for_services_frame [OF f] obtain evs ls where 1:
    "dom (files w1) = dom (files w)" "\<forall>q. q \<notin> set services \<longrightarrow> files w1 q = files w q"
    "fs_log w1 = fs_log w @ evs" "event_path ` set evs \<subseteq> set services"
    "stdout w1 = stdout w @ ls"
    "set ls \<subseteq> (\<lambda>q. ''Updated '' @ q) ` {q \<in> set services. files w q \<noteq> None}"
    unfolding touches_only_def by (elim conjE exE)
  have "w' = w1 \<or> w' = print_line ''All services updated!'' w1"
    using f assms by (cases e1) (auto simp: main_def)
  then have w': "files w' = files w1" "fs_log w' = fs_log w1"
    "stdout w' = stdout w1 \<or> stdout w' = stdout w1 @ [''All services updated!'']"
    by (auto simp: print_line_def)
  have a: "dom (files w') = dom (files w)" using 1(1) w'(1) by simp
  have b: "\<forall>q. q \<notin> set services \<longrightarrow> files w' q = files w q" using 1(2) w'(1) by simp
  have c: "\<exists>evs. fs_log w' = fs_log w @ evs \<and> event_path ` set evs \<subseteq> set services"
    using 1(3,4) w'(2) by simp
  have d: "\<exists>ls. stdout w' = stdout w @ ls \<and>
      set ls \<subseteq> insert ''All services updated!''
        ((\<lambda>q. ''Updated '' @ q) ` {q \<in> set services. files w q \<noteq> None})"
  proof -
    from w'(3) show ?thesis
    proof
      assume "stdout w' = stdout w1"
      with 1(5) have "stdout w' = stdout w @ ls" by simp
      moreover from 1(6) have "set ls \<subseteq> insert ''All services updated!''
        ((\<lambda>q. ''Updated '' @ q) ` {q \<in> set services. files w q \<noteq> None})"
        by (rule subset_insertI2)
      ultimately show ?thesis by (intro exI conjI)
    next
      assume "stdout w' = stdout w1 @ [''All services updated!'']"
      with 1(5) have "stdout w' = stdout w @ (ls @ [''All services updated!''])" by simp
      moreover from 1(6) have "set (ls @ [''All services updated!'']) \<subseteq>
        insert ''All services updated!''
        ((\<lambda>q. ''Updated '' @ q) ` {q \<in> set services. files w q \<noteq> None})"
        by (simp add: subset_insertI2)
      ultimately show ?thesis by (intro exI conjI)
    qed
  qed
  show ?thesis by (intro conjI a b c d)
qed

lemma events_of_path: "ev \<in> set (events_of w q) \<Longrightarrow> event_path ev = q"
  by (auto simp: events_of_def split: option.splits)



subsection \<open>The sample worlds meet no I/O error\<close>

lemma sample_io_ok: "io_ok sample_world"
  by (simp add: io_ok_def services_def accessible_def sample_world_def rw_file_def)


section \<open>The claims\<close>



text \<open>
  Claim C2. Replacing twice gives the same string as replacing once, for every input
  string: the result of one replacement holds no occurrence of \<^verbatim>\<open>response.hash\<close>.
  Hence a second run of the script, whatever happened in the first, leaves every file's
  content as the first run left it.
\<close>

theorem replacement_is_idempotent:
  "str_replace ''response.hash'' ''response.id'' (str_replace ''response.hash'' ''response.id'' s)
     = str_replace ''response.hash'' ''response.id'' s
   \<and> \<not> sublist ''response.hash'' (str_replace ''response.hash'' ''response.id'' s)
   \<and> files (snd (main (snd (main w)))) = files (snd (main w))"
  using replace_twice none_left main_twice_files by simp

text \<open>
  Claim C3. A listed path that does not exist is skipped silently. Its loop iteration
  raises nothing and does nothing but the existence test; after the run the path still
  does not exist and no line printed by the run is its confirmation line. The run goes
  on with the other paths: if none of them meets an I/O error, the run ends normally,
  every listed file that exists is patched, and the last line printed is the completion
  line.
\<close>

theorem missing_file_is_skipped:
  assumes "p \<in> set services" and "files w p = None"
  shows "patch_file p w = (None, w\<lparr>fs_log := fs_log w @ [Exists p]\<rparr>) \<and>
    files (snd (main w)) p = None \<and>
    (\<exists>ls. stdout (snd (main w)) = stdout w @ ls \<and> ''Updated '' @ p \<notin> set ls) \<and>
    (io_ok w \<longrightarrow>
       fst (main w) = None \<and>
       (\<forall>q\<in>set services. files (snd (main w)) q = map_option patched (files w q)) \<and>
       (\<exists>ls. stdout (snd (main w)) = stdout w @ ls @ [''All services updated!'']))"
proof -
  have 1: "patch_file p w = (None, w\<lparr>fs_log := fs_log w @ [Exists p]\<rparr>)"
    using assms(2) by (rule patch_file_missing)
  obtain e w' where m: "main w = (e, w')" by (cases "main w")
  from main_frame [OF m] obtain ls where fr: "dom (files w') = dom (files w)"
    "stdout w' = stdout w @ ls"
    "set ls \<subseteq> insert ''All services updated!''
        ((\<lambda>q. ''Updated '' @ q) ` {q \<in> set services. files w q \<noteq> None})"
    by (elim conjE exE)
  from fr(1) assms(2) have 2: "files (snd (main w)) p = None"
    using m by (metis domIff snd_conv)
  have "''Updated '' @ p \<notin> set ls"
  proof
    assume "''Updated '' @ p \<in> set ls"
    with fr(3) have "''Updated '' @ p = ''All services updated!'' \<or>
      (\<exists>q. files w q \<noteq> None \<and> ''Updated '' @ p = ''Updated '' @ q)"
      by auto
    then have "files w p \<noteq> None" by auto
    with assms(2) show False by simp
  qed
  with fr(2) m have 3: "\<exists>ls. stdout (snd (main w)) = stdout w @ ls \<and> ''Updated '' @ p \<notin> set ls"
    by auto
  have 4: "io_ok w \<longrightarrow>
       fst (main w) = None \<and>
       (\<forall>q\<in>set services. files (snd (main w)) q = map_option patched (files w q)) \<and>
       (\<exists>ls. stdout (snd (main w)) = stdout w @ ls @ [''All services updated!''])"
  proof
    assume "io_ok w"
    from main_ok [OF this] show "fst (main w) = None \<and>
       (\<forall>q\<in>set services. files (snd (main w)) q = map_option patched (files w q)) \<and>
       (\<exists>ls. stdout (snd (main w)) = stdout w @ ls @ [''All services updated!''])"
      by simp
  qed
  from 1 2 3 4 show ?thesis by (intro conjI)
qed

text \<open>The theorem at the third listed path, which the sample world lacks.\<close>

theorem missing_file_is_skipped_witness:
  "''Blendv3/Services/BlendOracleService.swift'' \<in> set services \<and>
   files sample_world ''Blendv3/Services/BlendOracleService.swift'' = None \<and>
   io_ok sample_world \<and>
   fst (main sample_world) = None \<and>
   files (snd (main sample_world)) ''Blendv3/Services/BlendOracleService.swift'' = None \<and>
   (\<exists>ls. stdout (snd (main sample_world)) = stdout sample_world @ ls @ [''All services updated!''])"
proof -
  have h1: "''Blendv3/Services/BlendOracleService.swift'' \<in> set services"
    by (simp add: services_def)
  have h2: "files sample_world ''Blendv3/Services/BlendOracleService.swift'' = None"
    by (simp add: sample_world_def)
  from missing_file_is_skipped [OF h1 h2] sample_io_ok h1 h2 show ?thesis by blast
qed

text \<open>
  Claim C4. The replacement looks at no word boundary: an occurrence of
  \<^verbatim>\<open>response.hash\<close> is replaced whatever text \<open>a\<close> stands before it and whatever text
  \<open>b\<close> follows it. In particular \<^verbatim>\<open>x.response.hash.y\<close> becomes \<^verbatim>\<open>x.response.id.y\<close>,
  \<^verbatim>\<open>xresponse.hashy\<close> becomes \<^verbatim>\<open>xresponse.idy\<close>, and \<^verbatim>\<open>response.hashes\<close> becomes
  \<^verbatim>\<open>response.ides\<close> wherever it stands.
\<close>

theorem replacement_ignores_word_boundaries:
  "str_replace ''response.hash'' ''response.id'' (a @ ''response.hash'' @ b) =
     str_replace ''response.hash'' ''response.id'' a @ ''response.id'' @
     str_replace ''response.hash'' ''response.id'' b
   \<and> str_replace ''response.hash'' ''response.id'' ''x.response.hash.y'' = ''x.response.id.y''
   \<and> str_replace ''response.hash'' ''response.id'' ''xresponse.hashy'' = ''xresponse.idy''
   \<and> str_replace ''response.hash'' ''response.id'' (a @ ''response.hashes'' @ b) =
     str_replace ''response.hash'' ''response.id'' a @ ''response.ides'' @
     str_replace ''response.hash'' ''response.id'' b"
proof -
  have g: "\<And>a b. str_replace ''response.hash'' ''response.id'' (a @ ''response.hash'' @ b) =
     str_replace ''response.hash'' ''response.id'' a @ ''response.id'' @
     str_replace ''response.hash'' ''response.id'' b"
    by (rule str_replace_around) simp_all
  have e: "str_replace ''response.hash'' ''response.id'' (''es'' @ b) =
      ''es'' @ str_replace ''response.hash'' ''response.id'' b"
    by (rule str_replace_skip) simp_all
  have "a @ ''response.hashes'' @ b = a @ ''response.hash'' @ (''es'' @ b)" by simp
  then have "str_replace ''response.hash'' ''response.id'' (a @ ''response.hashes'' @ b) =
     str_replace ''response.hash'' ''response.id'' a @ ''response.id'' @ (''es'' @
     str_replace ''response.hash'' ''response.id'' b)"
    using g e by metis
  moreover have "str_replace ''response.hash'' ''response.id'' ''x.response.hash.y'' = ''x.response.id.y''"
    by simp
  moreover have "str_replace ''response.hash'' ''response.id'' ''xresponse.hashy'' = ''xresponse.idy''"
    by simp
  ultimately show ?thesis using g by simp
qed





text \<open>
  Claim C7. Let \<open>p\<close> be a listed path that exists and cannot be read or cannot be written,
  the paths \<open>pre\<close> listed before it meeting no error. Then the run ends with the
  unhandled error raised at \<open>p\<close>. The files listed earlier keep their patched contents,
  every other file, \<open>p\<close> and the later ones included, is as it was before the run; the
  output is the confirmation lines of the earlier existing paths and nothing more (no
  completion line, no report of the failure); and no file operation of the run concerns
  a path listed after \<open>p\<close>.
\<close>

theorem io_error_aborts_run:
  assumes "services = pre @ p # post" and "\<forall>q\<in>set pre. accessible w q"
    and "files w p = Some f" and "\<not> readable f \<or> \<not> writable f"
  shows "fst (main w) = Some (PermissionError p) \<and>
    (\<forall>q\<in>set pre. files (snd (main w)) q = map_option patched (files w q)) \<and>
    (\<forall>q. q \<notin> set pre \<longrightarrow> files (snd (main w)) q = files w q) \<and>
    stdout (snd (main w)) =
      stdout w @ map (\<lambda>q. ''Updated '' @ q) (filter (\<lambda>q. files w q \<noteq> None) pre) \<and>
    (\<exists>evs. fs_log (snd (main w)) = fs_log w @ evs \<and> (\<forall>ev\<in>set evs. event_path ev \<notin> set post))"
proof -
  note m = main_abort [OF assms]
  let ?evs = "concat (map (events_of w) pre) @ (if readable f then [Exists p, Read p] else [Exists p])"
  have d: "distinct (pre @ p # post)" using distinct_services by (simp only: assms(1))
  have "\<forall>ev\<in>set ?evs. event_path ev \<in> set pre \<union> {p}"
    by (auto dest: events_of_path)
  moreover from d have "(set pre \<union> {p}) \<inter> set post = {}" by auto
  ultimately have "\<forall>ev\<in>set ?evs. event_path ev \<notin> set post" by blast
  moreover have "fs_log (snd (main w)) = fs_log w @ ?evs" using m by simp
  ultimately have 5: "\<exists>evs. fs_log (snd (main w)) = fs_log w @ evs \<and>
      (\<forall>ev\<in>set evs. event_path ev \<notin> set post)"
    by blast
  have 1: "fst (main w) = Some (PermissionError p)" using m by simp
  have 2: "\<forall>q\<in>set pre. files (snd (main w)) q = map_option patched (files w q)" using m by simp
  have 3: "\<forall>q. q \<notin> set pre \<longrightarrow> files (snd (main w)) q = files w q" using m by simp
  have 4: "stdout (snd (main w)) =
      stdout w @ map (\<lambda>q. ''Updated '' @ q) (filter (\<lambda>q. files w q \<noteq> None) pre)"
    using m by simp
  from 1 2 3 4 5 show ?thesis by (intro conjI)
qed

text \<open>
  The theorem at the world whose second listed file is read-only: the first file is
  patched, the second and third are untouched, one line is printed.
\<close>

theorem io_error_aborts_run_witness:
  "services = [''Blendv3/Services/PoolService.swift''] @
     ''Blendv3/Services/BackstopContractService.swift'' #
     [''Blendv3/Services/BlendOracleService.swift''] \<and>
   accessible locked_world ''Blendv3/Services/PoolService.swift'' \<and>
   files locked_world ''Blendv3/Services/BackstopContractService.swift'' =
     Some \<lparr>contents = ''response.hash'', readable = True, writable = False\<rparr> \<and>
   fst (main locked_world) =
     Some (PermissionError ''Blendv3/Services/BackstopContractService.swift'') \<and>
   files (snd (main locked_world)) ''Blendv3/Services/PoolService.swift'' =
     Some (rw_file ''a=response.id;'') \<and>
   files (snd (main locked_world)) ''Blendv3/Services/BackstopContractService.swift'' =
     Some \<lparr>contents = ''response.hash'', readable = True, writable = False\<rparr> \<and>
   files (snd (main locked_world)) ''Blendv3/Services/BlendOracleService.swift'' =
     Some (rw_file ''response.hash response.hash'') \<and>
   stdout (snd (main locked_world)) = [''Updated Blendv3/Services/PoolService.swift'']"
proof -
  let ?f = "\<lparr>contents = ''response.hash'', readable = True, writable = False\<rparr>"
  have h1: "services = [''Blendv3/Services/PoolService.swift''] @
     ''Blendv3/Services/BackstopContractService.swift'' #
     [''Blendv3/Services/BlendOracleService.swift'']"
    by (simp add: services_def)
  have h2: "\<forall>q\<in>set [''Blendv3/Services/PoolService.swift'']. accessible locked_world q"
    by (simp add: accessible_def locked_world_def rw_file_def)
  have h3: "files locked_world ''Blendv3/Services/BackstopContractService.swift'' = Some ?f"
    by (simp add: locked_world_def)
  have h4: "\<not> readable ?f \<or> \<not> writable ?f" by simp
  have p: "patched (rw_file ''a=response.hash;'') = rw_file ''a=response.id;''"
    by (simp add: patched_def rw_file_def)
  have f1: "files locked_world ''Blendv3/Services/PoolService.swift'' = Some (rw_file ''a=response.hash;'')"
    by (simp add: locked_world_def)
  have f3: "files locked_world ''Blendv3/Services/BlendOracleService.swift'' =
     Some (rw_file ''response.hash response.hash'')"
    by (simp add: locked_world_def)
  have o: "stdout locked_world = []" by (simp add: locked_world_def)
  have a: "accessible locked_world ''Blendv3/Services/PoolService.swift''"
    using h2 by simp
  from io_error_aborts_run [OF h1 h2 h3 h4] h1 a h3 show ?thesis
    by (simp add: f1 f3 p o)
qed







end
